theory Spec2Isabelle
  imports Main
begin

section \<open>The in-memory event store of \<^verbatim>\<open>src/src/test_mcp_server.py\<close>\<close>

text \<open>
  The class \<^verbatim>\<open>InMemoryEventStore\<close> keeps, for every stream, a bounded deque of the
  events stored on it, and one dictionary from event ids to entries over all streams.
  \<^verbatim>\<open>store_event\<close> appends an entry (evicting the oldest one of a full deque and
  dropping its id from the dictionary); \<^verbatim>\<open>replay_events_after\<close> looks an id up and
  hands every later entry of the same stream to a callback.

  Conventions of the embedding.
  \<^item> Python strings (\<^verbatim>\<open>EventId\<close>, \<^verbatim>\<open>StreamId\<close>) are HOL strings; the message payload
    is never inspected by the store and is a type parameter \<open>'m\<close>.
  \<^item> \<^verbatim>\<open>str(uuid4())\<close> draws the fresh id from the operating system's random source. The
    drawn string is an argument of \<open>store_event\<close>; theorems that speak of ids "returned
    by a call" assume what the generator is relied on for, pairwise distinct draws.
  \<^item> Exceptions are values: a call returns the store as the exception leaves it, and
    \<open>Inl\<close> of the error or \<open>Inr\<close> of the result.
  \<^item> The \<^verbatim>\<open>send_callback\<close> of a replay belongs to the caller. A replay returns the list
    of \<^verbatim>\<open>EventMessage\<close> values it passes to the callback, in call order; the callback is
    taken to return normally and not to touch the store. Both methods are run to
    completion one after the other: interleavings of coroutines are not modelled.
\<close>

subsection \<open>Data\<close>

type_synonym EventId = string
type_synonym StreamId = string

text \<open>\<^verbatim>\<open>@dataclass class EventEntry\<close>.\<close>

record 'm EventEntry =
  event_id :: EventId
  stream_id :: StreamId
  message :: 'm

text \<open>\<^verbatim>\<open>EventMessage(message, event_id)\<close>, the value the callback receives.\<close>

datatype 'm EventMessage = EventMessage 'm EventId

datatype error = IndexError | ValueError | OverflowError

text \<open>
  \<^verbatim>\<open>sys.maxsize\<close>, the largest value of the C type \<^verbatim>\<open>Py_ssize_t\<close>, on a 64-bit CPython.
\<close>

definition sys_maxsize :: int where
  "sys_maxsize = 2 ^ 63 - 1"

text \<open>
  \<^verbatim>\<open>collections.deque\<close> with a bound. \<^verbatim>\<open>deque(maxlen=n)\<close> converts \<open>n\<close> to a \<^verbatim>\<open>Py_ssize_t\<close>
  and raises \<^verbatim>\<open>OverflowError\<close> when \<open>n\<close> does not fit (\<open>n > sys.maxsize\<close> or
  \<open>n < -sys.maxsize - 1\<close>); it raises \<^verbatim>\<open>ValueError\<close> for any other negative \<open>n\<close>.
  \<^verbatim>\<open>append\<close> adds on the right and, when the deque then holds more than \<^verbatim>\<open>maxlen\<close>
  elements, drops the leftmost one; \<^verbatim>\<open>d[0]\<close> raises \<^verbatim>\<open>IndexError\<close> on an empty deque.
\<close>

record 'a deque =
  maxlen :: nat
  items :: "'a list"

definition deque_new :: "int \<Rightarrow> error + 'a deque" where
  "deque_new n =
     (if n < - sys_maxsize - 1 \<or> sys_maxsize < n then Inl OverflowError
      else if n < 0 then Inl ValueError
      else Inr \<lparr>maxlen = nat n, items = []\<rparr>)"

definition deque_append :: "'a deque \<Rightarrow> 'a \<Rightarrow> 'a deque" where
  "deque_append d x =
     (let xs = items d @ [x]
      in d\<lparr>items := (if maxlen d < length xs then tl xs else xs)\<rparr>)"

definition deque_first :: "'a deque \<Rightarrow> error + 'a" where
  "deque_first d = (case items d of [] \<Rightarrow> Inl IndexError | x # _ \<Rightarrow> Inr x)"

record 'm InMemoryEventStore =
  max_events_per_stream :: int
  streams :: "StreamId \<rightharpoonup> 'm EventEntry deque"
  event_index :: "EventId \<rightharpoonup> 'm EventEntry"

text \<open>\<^verbatim>\<open>InMemoryEventStore.__init__\<close>.\<close>

definition InMemoryEventStore_init :: "int \<Rightarrow> 'm InMemoryEventStore" where
  "InMemoryEventStore_init n =
     \<lparr>max_events_per_stream = n, streams = Map.empty, event_index = Map.empty\<rparr>"

subsection \<open>\<^verbatim>\<open>store_event\<close>\<close>

text \<open>
  The three statements of the method that can raise or mutate, in source order. Each
  returns the store as it stands when the statement ends, also when it ends by raising.
  \<^enum> \<open>ensure_stream\<close>: \<^verbatim>\<open>if stream_id not in self.streams: self.streams[stream_id] = deque(maxlen=...)\<close>;
  \<^enum> \<open>evict_oldest\<close>: \<^verbatim>\<open>if len(self.streams[stream_id]) == self.max_events_per_stream: ...pop(...)\<close>;
  \<^enum> the append and the insertion into the index.
\<close>

definition ensure_stream ::
  "'m InMemoryEventStore \<Rightarrow> StreamId \<Rightarrow> error + ('m InMemoryEventStore \<times> 'm EventEntry deque)" where
  "ensure_stream self sid =
     (case streams self sid of
        Some d \<Rightarrow> Inr (self, d)
      | None \<Rightarrow>
          (case deque_new (max_events_per_stream self) of
             Inl e \<Rightarrow> Inl e
           | Inr d \<Rightarrow> Inr (self\<lparr>streams := (streams self)(sid \<mapsto> d)\<rparr>, d)))"

definition evict_oldest ::
  "'m InMemoryEventStore \<Rightarrow> 'm EventEntry deque \<Rightarrow> error + 'm InMemoryEventStore" where
  "evict_oldest self d =
     (if int (length (items d)) = max_events_per_stream self then
        (case deque_first d of
           Inl e \<Rightarrow> Inl e
         | Inr oldest_event \<Rightarrow>
             Inr (self\<lparr>event_index := (event_index self)(event_id oldest_event := None)\<rparr>))
      else Inr self)"

definition store_event ::
  "'m InMemoryEventStore \<Rightarrow> StreamId \<Rightarrow> EventId \<Rightarrow> 'm
     \<Rightarrow> 'm InMemoryEventStore \<times> (error + EventId)" where
  "store_event self sid uuid msg =
     (let event_entry = \<lparr>event_id = uuid, stream_id = sid, message = msg\<rparr>
      in case ensure_stream self sid of
           Inl e \<Rightarrow> (self, Inl e)
         | Inr (s1, d) \<Rightarrow>
             (case evict_oldest s1 d of
                Inl e \<Rightarrow> (s1, Inl e)
              | Inr s2 \<Rightarrow>
                  (s2\<lparr>streams := (streams s2)(sid \<mapsto> deque_append d event_entry),
                      event_index := (event_index s2)(uuid \<mapsto> event_entry)\<rparr>,
                   Inr uuid)))"

subsection \<open>\<^verbatim>\<open>replay_events_after\<close>\<close>

text \<open>
  The \<^verbatim>\<open>for\<close> loop with its flag \<^verbatim>\<open>found_last\<close>: the list of callback arguments it
  produces over the remaining events.
\<close>

fun replay_loop :: "EventId \<Rightarrow> bool \<Rightarrow> 'm EventEntry list \<Rightarrow> 'm EventMessage list" where
  "replay_loop last_event_id found_last [] = []"
| "replay_loop last_event_id found_last (event # rest) =
     (if found_last then
        EventMessage (message event) (event_id event) # replay_loop last_event_id True rest
      else if event_id event = last_event_id then replay_loop last_event_id True rest
      else replay_loop last_event_id False rest)"

text \<open>\<^verbatim>\<open>self.streams.get(stream_id, deque())\<close>, as the list the loop iterates over.\<close>

definition stream_events :: "'m InMemoryEventStore \<Rightarrow> StreamId \<Rightarrow> 'm EventEntry list" where
  "stream_events self sid = (case streams self sid of None \<Rightarrow> [] | Some d \<Rightarrow> items d)"

text \<open>
  The result is the store after the call, the callback arguments in call order, and the
  returned \<^verbatim>\<open>StreamId | None\<close>.
\<close>

definition replay_events_after ::
  "'m InMemoryEventStore \<Rightarrow> EventId
     \<Rightarrow> 'm InMemoryEventStore \<times> 'm EventMessage list \<times> StreamId option" where
  "replay_events_after self last_event_id =
     (case event_index self last_event_id of
        None \<Rightarrow> (self, [], None)
      | Some last_event \<Rightarrow>
          (self,
           replay_loop last_event_id False (stream_events self (stream_id last_event)),
           Some (stream_id last_event)))"

subsection \<open>Sequences of calls\<close>

text \<open>
  A call of \<^verbatim>\<open>store_event\<close> is its stream id, the id drawn for it and its message. \<open>run\<close>
  performs the calls in order on one store, a caller that carries on after an exception,
  and collects what each call returned or raised.
\<close>

type_synonym 'm call = "StreamId \<times> EventId \<times> 'm"

fun run ::
  "'m InMemoryEventStore \<Rightarrow> 'm call list \<Rightarrow> 'm InMemoryEventStore \<times> (error + EventId) list" where
  "run self [] = (self, [])"
| "run self ((sid, uuid, msg) # calls) =
     (case store_event self sid uuid msg of
        (s1, r) \<Rightarrow> (case run s1 calls of (s2, rs) \<Rightarrow> (s2, r # rs)))"

text \<open>The ids that the calls of a sequence returned (a call that raised returned none).\<close>

fun returned_ids :: "(error + EventId) list \<Rightarrow> EventId list" where
  "returned_ids [] = []"
| "returned_ids (Inl e # rs) = returned_ids rs"
| "returned_ids (Inr i # rs) = i # returned_ids rs"

text \<open>The entry that a call constructs, and the entries of the calls on one stream.\<close>

definition entry_of :: "'m call \<Rightarrow> 'm EventEntry" where
  "entry_of c = (case c of (sid, uuid, msg) \<Rightarrow> \<lparr>event_id = uuid, stream_id = sid, message = msg\<rparr>)"

definition entries_on :: "StreamId \<Rightarrow> 'm call list \<Rightarrow> 'm EventEntry list" where
  "entries_on sid calls = map entry_of (filter (\<lambda>c. fst c = sid) calls)"

definition to_message :: "'m EventEntry \<Rightarrow> 'm EventMessage" where
  "to_message e = EventMessage (message e) (event_id e)"

subsection \<open>Invariants of the store\<close>

text \<open>
  \<open>bounded n\<close>: the capacity attribute is \<open>n\<close>, and every deque of the store was made with
  that bound, which \<^verbatim>\<open>deque\<close> accepted, and respects it. \<open>indexed U\<close>: the index and the deques agree, every id is
  one of the drawn ids \<open>U\<close>, and no id occurs twice.
\<close>

definition bounded :: "int \<Rightarrow> 'm InMemoryEventStore \<Rightarrow> bool" where
  "bounded n self \<longleftrightarrow>
     max_events_per_stream self = n \<and>
     (\<forall>sid d. streams self sid = Some d \<longrightarrow>
        0 \<le> n \<and> n \<le> sys_maxsize \<and> maxlen d = nat n \<and> length (items d) \<le> nat n)"

definition indexed :: "EventId set \<Rightarrow> 'm InMemoryEventStore \<Rightarrow> bool" where
  "indexed U self \<longleftrightarrow>
     (\<forall>sid. distinct (map event_id (stream_events self sid)) \<and>
        (\<forall>e \<in> set (stream_events self sid).
           stream_id e = sid \<and> event_index self (event_id e) = Some e)) \<and>
     (\<forall>eid e. event_index self eid = Some e \<longrightarrow>
        eid \<in> U \<and> event_id e = eid \<and> e \<in> set (stream_events self (stream_id e)))"

text \<open>The ids drawn for the calls of a sequence, in call order.\<close>

definition drawn :: "'m call list \<Rightarrow> EventId list" where
  "drawn calls = map (\<lambda>c. fst (snd c)) calls"

section \<open>Properties\<close>

subsection \<open>Running calls, and what one call does\<close>

lemma run_append:
  "run self (xs @ ys) =
     (case run self xs of (s1, rs) \<Rightarrow> (case run s1 ys of (s2, rs') \<Rightarrow> (s2, rs @ rs')))"
  by (induction self xs rule: run.induct) (auto split: prod.splits)

lemma run_snoc:
  "run self (xs @ [(sid, uuid, msg)]) =
     (case run self xs of (s1, rs) \<Rightarrow>
        (case store_event s1 sid uuid msg of (s2, r) \<Rightarrow> (s2, rs @ [r])))"
  by (simp add: run_append split: prod.splits)

lemma fst_run_snoc:
  "fst (run self (xs @ [(sid, uuid, msg)])) = fst (store_event (fst (run self xs)) sid uuid msg)"
  by (simp add: run_snoc split: prod.splits)

lemma bounded_init: "bounded n (InMemoryEventStore_init n)"
  by (simp add: bounded_def InMemoryEventStore_init_def)

lemma sys_maxsize_pos: "0 < sys_maxsize"
  by (simp add: sys_maxsize_def)

lemma sys_maxsize_nonneg: "0 \<le> sys_maxsize"
  by (simp add: sys_maxsize_def)

lemma bounded_no_streams:
  "bounded n self \<Longrightarrow> n < 0 \<or> sys_maxsize < n \<Longrightarrow> streams self sid = None"
  by (cases "streams self sid") (auto simp: bounded_def)

text \<open>A bound that \<^verbatim>\<open>deque\<close> refuses: the call raises and leaves the store as it was.\<close>

lemma store_event_no_deque:
  assumes "bounded n self" "n < 0 \<or> sys_maxsize < n"
  shows "store_event self sid uuid msg =
           (self, Inl (if n < - sys_maxsize - 1 \<or> sys_maxsize < n
                       then OverflowError else ValueError))"
proof -
  from assms have "streams self sid = None" by (rule bounded_no_streams)
  moreover from assms(1) have "max_events_per_stream self = n" by (simp add: bounded_def)
  ultimately show ?thesis
    using assms(2) by (auto simp: store_event_def ensure_stream_def deque_new_def)
qed

lemma store_event_zero:
  assumes "bounded 0 self"
  shows "store_event self sid uuid msg =
           (self\<lparr>streams := (streams self)(sid \<mapsto> \<lparr>maxlen = 0, items = []\<rparr>)\<rparr>, Inl IndexError)"
proof (cases "streams self sid")
  case None
  with assms sys_maxsize_pos show ?thesis
    by (simp add: store_event_def ensure_stream_def deque_new_def evict_oldest_def
        deque_first_def bounded_def)
next
  case (Some d)
  with assms have d: "maxlen d = 0" "items d = []" by (auto simp: bounded_def)
  then have "d = \<lparr>maxlen = 0, items = []\<rparr>" by simp
  with Some assms show ?thesis
    by (simp add: store_event_def ensure_stream_def evict_oldest_def
        deque_first_def bounded_def fun_upd_idem)
qed

lemma deque_items_update: "(d::'a deque)\<lparr>items := ys\<rparr> = \<lparr>maxlen = maxlen d, items = ys\<rparr>"
  by (cases d) simp

lemma store_event_positive:
  assumes "bounded n self" "1 \<le> n" "n \<le> sys_maxsize"
  shows "store_event self sid uuid msg =
           (self\<lparr>streams := (streams self)(sid \<mapsto>
                    \<lparr>maxlen = nat n,
                     items = (if length (stream_events self sid) = nat n
                              then tl (stream_events self sid)
                              else stream_events self sid)
                             @ [\<lparr>event_id = uuid, stream_id = sid, message = msg\<rparr>]\<rparr>),
                  event_index :=
                    (if length (stream_events self sid) = nat n
                     then (event_index self)(event_id (hd (stream_events self sid)) := None)
                     else event_index self)
                    (uuid \<mapsto> \<lparr>event_id = uuid, stream_id = sid, message = msg\<rparr>)\<rparr>,
            Inr uuid)"
proof (cases "streams self sid")
  case None
  with assms show ?thesis
    by (simp add: store_event_def ensure_stream_def deque_new_def evict_oldest_def
        deque_first_def deque_append_def bounded_def stream_events_def Let_def)
next
  case (Some d)
  with assms have d: "maxlen d = nat n" "length (items d) \<le> nat n" "max_events_per_stream self = n"
    by (auto simp: bounded_def)
  show ?thesis
  proof (cases "length (items d) = nat n")
    case True
    with assms d obtain x xs where xs: "items d = x # xs" by (cases "items d") auto
    with True Some d assms show ?thesis
      by (simp add: store_event_def ensure_stream_def evict_oldest_def
        deque_first_def deque_append_def stream_events_def Let_def deque_items_update)
  next
    case False
    with d have "int (length (items d)) \<noteq> n" by linarith
    with False Some d assms show ?thesis
      by (simp add: store_event_def ensure_stream_def evict_oldest_def
        deque_first_def deque_append_def stream_events_def Let_def deque_items_update)
  qed
qed

lemma store_event_fields:
  assumes "bounded n self" "1 \<le> n" "n \<le> sys_maxsize"
  shows "max_events_per_stream (fst (store_event self sid uuid msg)) = n"
    and "streams (fst (store_event self sid uuid msg)) =
           (streams self)(sid \<mapsto>
              \<lparr>maxlen = nat n,
               items = (if length (stream_events self sid) = nat n
                        then tl (stream_events self sid)
                        else stream_events self sid)
                       @ [\<lparr>event_id = uuid, stream_id = sid, message = msg\<rparr>]\<rparr>)"
    and "event_index (fst (store_event self sid uuid msg)) =
           (if length (stream_events self sid) = nat n
            then (event_index self)(event_id (hd (stream_events self sid)) := None)
            else event_index self)
           (uuid \<mapsto> \<lparr>event_id = uuid, stream_id = sid, message = msg\<rparr>)"
    and "snd (store_event self sid uuid msg) = Inr uuid"
  using assms(1) by (simp_all add: store_event_positive [OF assms] bounded_def)

lemma stream_events_store_event:
  assumes "bounded n self" "1 \<le> n" "n \<le> sys_maxsize"
  shows "stream_events (fst (store_event self sid uuid msg)) t =
           (if t = sid
            then (if length (stream_events self sid) = nat n
                  then tl (stream_events self sid)
                  else stream_events self sid)
                 @ [\<lparr>event_id = uuid, stream_id = sid, message = msg\<rparr>]
            else stream_events self t)"
  by (simp add: stream_events_def [of "fst (store_event self sid uuid msg)"]
      store_event_fields(2) [OF assms]) (simp add: stream_events_def)

lemma stream_events_length: "bounded n self \<Longrightarrow> length (stream_events self sid) \<le> nat n"
  by (auto simp: bounded_def stream_events_def split: option.splits)

lemma bounded_store_event:
  assumes "bounded n self"
  shows "bounded n (fst (store_event self sid uuid msg))"
proof -
  consider "n < 0 \<or> sys_maxsize < n" | "n = 0" | "1 \<le> n" "n \<le> sys_maxsize" by linarith
  then show ?thesis
  proof cases
    case 1
    with assms show ?thesis
      by (simp add: store_event_no_deque [OF assms 1])
  next
    case 2
    with assms show ?thesis
      by (simp add: store_event_zero) (simp add: bounded_def sys_maxsize_nonneg)
  next
    case 3
    have len: "length (stream_events self sid) \<le> nat n"
      using assms by (rule stream_events_length)
    from 3 have pos: "0 < nat n" by simp
    show ?thesis
      unfolding bounded_def store_event_fields(1,2) [OF assms 3]
      using assms 3 len pos by (auto simp: bounded_def)
  qed
qed

lemma fst_run_Cons:
  "fst (run self ((sid, uuid, msg) # calls)) = fst (run (fst (store_event self sid uuid msg)) calls)"
  by (simp split: prod.splits)

lemma snd_run_Cons:
  "snd (run self ((sid, uuid, msg) # calls)) =
     snd (store_event self sid uuid msg) # snd (run (fst (store_event self sid uuid msg)) calls)"
  by (simp split: prod.splits)

lemma bounded_run: "bounded n self \<Longrightarrow> bounded n (fst (run self calls))"
proof (induction calls arbitrary: self)
  case Nil
  then show ?case by simp
next
  case (Cons c calls)
  obtain sid uuid msg where c: "c = (sid, uuid, msg)" by (cases c) auto
  have "bounded n (fst (store_event self sid uuid msg))"
    using Cons.prems by (rule bounded_store_event)
  from Cons.IH [OF this] show ?case
    unfolding c fst_run_Cons .
qed

lemma results_zero:
  "bounded 0 self \<Longrightarrow> snd (run self calls) = map (\<lambda>c. Inl IndexError) calls"
proof (induction calls arbitrary: self)
  case Nil
  then show ?case by simp
next
  case (Cons c calls)
  obtain sid uuid msg where c: "c = (sid, uuid, msg)" by (cases c) auto
  have b: "bounded 0 (fst (store_event self sid uuid msg))"
    using Cons.prems by (rule bounded_store_event)
  have r: "snd (store_event self sid uuid msg) = Inl IndexError"
    using Cons.prems by (simp add: store_event_zero)
  from Cons.IH [OF b] r show ?case
    unfolding c snd_run_Cons by simp
qed

lemma results_positive:
  "bounded n self \<Longrightarrow> 1 \<le> n \<Longrightarrow> n \<le> sys_maxsize \<Longrightarrow>
     snd (run self calls) = map (\<lambda>c. Inr (fst (snd c))) calls"
proof (induction calls arbitrary: self)
  case Nil
  then show ?case by simp
next
  case (Cons c calls)
  obtain sid uuid msg where c: "c = (sid, uuid, msg)" by (cases c) auto
  have b: "bounded n (fst (store_event self sid uuid msg))"
    using Cons.prems(1) by (rule bounded_store_event)
  have r: "snd (store_event self sid uuid msg) = Inr uuid"
    using Cons.prems by (rule store_event_fields(4))
  from Cons.IH [OF b Cons.prems(2,3)] r show ?case
    unfolding c snd_run_Cons by simp
qed

lemma run_no_deque:
  assumes "bounded n self" "n < 0 \<or> sys_maxsize < n"
  shows "run self calls =
           (self, map (\<lambda>c. Inl (if n < - sys_maxsize - 1 \<or> sys_maxsize < n
                                 then OverflowError else ValueError)) calls)"
proof (induction calls)
  case Nil
  show ?case by simp
next
  case (Cons c calls)
  obtain sid uuid msg where c: "c = (sid, uuid, msg)" by (cases c) auto
  from Cons.IH show ?case
    unfolding c by (simp add: store_event_no_deque [OF assms])
qed

lemma returned_ids_all_raised: "returned_ids (map (\<lambda>c. Inl e) calls) = []"
  by (induction calls) simp_all

lemma returned_ids_all_returned: "returned_ids (map (\<lambda>c. Inr (f c)) calls) = map f calls"
  by (induction calls) simp_all

subsection \<open>Exceptions of \<^verbatim>\<open>store_event\<close>\<close>

text \<open>
  Claim C8. On a store constructed with \<^verbatim>\<open>max_events_per_stream = 0\<close> every call of
  \<^verbatim>\<open>store_event\<close>, so the first one on any stream, raises \<^verbatim>\<open>IndexError\<close>: the deque is
  empty, its length equals the capacity, and the eviction branch reads its first element.
  On a store constructed with a capacity of at least 1 the eviction branch only runs on a
  log that is not empty: no call raises \<^verbatim>\<open>IndexError\<close>. When moreover the capacity is one
  that a deque can have (at most \<^verbatim>\<open>sys.maxsize\<close>), no call raises at all: each returns the
  id drawn for it.
\<close>

theorem store_event_raises_iff_capacity_zero:
  "snd (run (InMemoryEventStore_init 0) calls) = map (\<lambda>c. Inl IndexError) calls \<and>
   (1 \<le> n \<longrightarrow> Inl IndexError \<notin> set (snd (run (InMemoryEventStore_init n) calls))) \<and>
   (1 \<le> n \<and> n \<le> sys_maxsize \<longrightarrow>
      snd (run (InMemoryEventStore_init n) calls) = map (\<lambda>c. Inr (fst (snd c))) calls)"
proof (intro conjI impI)
  show "snd (run (InMemoryEventStore_init 0) calls) = map (\<lambda>c. Inl IndexError) calls"
    using bounded_init by (rule results_zero)
next
  assume pos: "1 \<le> n"
  show "Inl IndexError \<notin> set (snd (run (InMemoryEventStore_init n) calls))"
  proof (cases "n \<le> sys_maxsize")
    case True
    with bounded_init pos
    have "snd (run (InMemoryEventStore_init n) calls) = map (\<lambda>c. Inr (fst (snd c))) calls"
      by (rule results_positive)
    then show ?thesis by auto
  next
    case False
    then have "n < 0 \<or> sys_maxsize < n" by simp
    with False show ?thesis
      by (auto simp: run_no_deque [OF bounded_init])
  qed
next
  assume "1 \<le> n \<and> n \<le> sys_maxsize"
  then have "1 \<le> n" "n \<le> sys_maxsize" by simp_all
  with bounded_init
  show "snd (run (InMemoryEventStore_init n) calls) = map (\<lambda>c. Inr (fst (snd c))) calls"
    by (rule results_positive)
qed

theorem store_event_raises_iff_capacity_zero_witness:
  "snd (run (InMemoryEventStore_init 0)
          [(''A'', ''e1'', ''m1''), (''A'', ''e2'', ''m2''), (''B'', ''e3'', ''m3'')])
     = [Inl IndexError, Inl IndexError, Inl IndexError] \<and>
   Inl IndexError \<notin> set (snd (run (InMemoryEventStore_init 1)
          [(''A'', ''e1'', ''m1''), (''A'', ''e2'', ''m2''), (''B'', ''e3'', ''m3'')])) \<and>
   snd (run (InMemoryEventStore_init 1)
          [(''A'', ''e1'', ''m1''), (''A'', ''e2'', ''m2''), (''B'', ''e3'', ''m3'')])
     = [Inr ''e1'', Inr ''e2'', Inr ''e3'']"
proof -
  let ?calls = "[(''A'', ''e1'', ''m1''), (''A'', ''e2'', ''m2''), (''B'', ''e3'', ''m3'')]"
  have h: "(1::int) \<le> 1 \<and> 1 \<le> sys_maxsize" by (simp add: sys_maxsize_def)
  note t = store_event_raises_iff_capacity_zero [of ?calls 1]
  from t [THEN conjunct1] t [THEN conjunct2, THEN conjunct1, rule_format, OF conjunct1 [OF h]]
    t [THEN conjunct2, THEN conjunct2, rule_format, OF h]
  show ?thesis by (simp del: run.simps)
qed

subsection \<open>A replay that finds nothing\<close>

text \<open>
  Claim C9. Whenever \<^verbatim>\<open>replay_events_after\<close> returns \<^verbatim>\<open>None\<close>, it has passed nothing to the
  callback and the store (every deque and the index) is as it was before the call.
\<close>

theorem replay_not_found_no_effect:
  "replay_events_after self last_event_id = (self', delivered, None) \<Longrightarrow>
     delivered = [] \<and> self' = self"
  by (auto simp: replay_events_after_def split: option.splits)

theorem replay_not_found_no_effect_witness:
  "replay_events_after (InMemoryEventStore_init 3 :: string InMemoryEventStore) ''e1''
     = (InMemoryEventStore_init 3, [], None) \<and>
   [] = ([] :: string EventMessage list) \<and>
   (InMemoryEventStore_init 3 :: string InMemoryEventStore) = InMemoryEventStore_init 3"
proof -
  have h: "replay_events_after (InMemoryEventStore_init 3 :: string InMemoryEventStore) ''e1''
             = (InMemoryEventStore_init 3, [], None)"
    by (simp add: replay_events_after_def InMemoryEventStore_init_def)
  from h replay_not_found_no_effect [OF h] show ?thesis by simp
qed

subsection \<open>Ids and the index\<close>

lemma returned_ids_Cons:
  "set (returned_ids (r # rs)) =
     (case r of Inl e \<Rightarrow> {} | Inr i \<Rightarrow> {i}) \<union> set (returned_ids rs)"
  by (cases r) auto

lemma index_dom_store_event:
  "dom (event_index (fst (store_event self sid uuid msg)))
     \<subseteq> dom (event_index self)
         \<union> (case snd (store_event self sid uuid msg) of Inl e \<Rightarrow> {} | Inr i \<Rightarrow> {i})"
  by (auto simp: store_event_def ensure_stream_def evict_oldest_def Let_def
      split: sum.splits option.splits if_splits prod.splits)

lemma index_dom_run:
  "dom (event_index (fst (run self calls)))
     \<subseteq> dom (event_index self) \<union> set (returned_ids (snd (run self calls)))"
proof (induction calls arbitrary: self)
  case Nil
  then show ?case by simp
next
  case (Cons c calls)
  obtain sid uuid msg where c: "c = (sid, uuid, msg)" by (cases c) auto
  show ?case
    unfolding c fst_run_Cons snd_run_Cons returned_ids_Cons
    using Cons.IH [of "fst (store_event self sid uuid msg)"]
      index_dom_store_event [of self sid uuid msg]
    by blast
qed

text \<open>
  Claim C3. In every state that calls of \<^verbatim>\<open>store_event\<close> lead to from a new store, a replay
  after an id that none of those calls returned gives \<^verbatim>\<open>None\<close>: it raises nothing, and it is
  not a success with an empty replay. The store is untouched and the callback is not called.
\<close>

theorem replay_unknown_id_not_found:
  "last_event_id \<notin> set (returned_ids (snd (run (InMemoryEventStore_init n) calls))) \<Longrightarrow>
     replay_events_after (fst (run (InMemoryEventStore_init n) calls)) last_event_id
       = (fst (run (InMemoryEventStore_init n) calls), [], None)"
proof -
  assume a: "last_event_id \<notin> set (returned_ids (snd (run (InMemoryEventStore_init n) calls)))"
  have "dom (event_index (InMemoryEventStore_init n :: 'a InMemoryEventStore)) = {}"
    by (simp add: InMemoryEventStore_init_def)
  with a index_dom_run [of "InMemoryEventStore_init n :: 'a InMemoryEventStore" calls]
  have "last_event_id \<notin> dom (event_index (fst (run (InMemoryEventStore_init n) calls)))"
    by blast
  then show ?thesis
    by (auto simp: replay_events_after_def split: option.splits)
qed

theorem replay_unknown_id_not_found_witness:
  "''e9'' \<notin> set (returned_ids (snd (run (InMemoryEventStore_init 2)
       [(''A'', ''e1'', ''m1''), (''A'', ''e2'', ''m2''), (''A'', ''e3'', ''m3'')]))) \<and>
   replay_events_after (fst (run (InMemoryEventStore_init 2)
       [(''A'', ''e1'', ''m1''), (''A'', ''e2'', ''m2''), (''A'', ''e3'', ''m3'')])) ''e9''
     = (fst (run (InMemoryEventStore_init 2)
         [(''A'', ''e1'', ''m1''), (''A'', ''e2'', ''m2''), (''A'', ''e3'', ''m3'')]), [], None)"
proof -
  have h: "''e9'' \<notin> set (returned_ids (snd (run (InMemoryEventStore_init 2)
       [(''A'', ''e1'', ''m1''), (''A'', ''e2'', ''m2''), (''A'', ''e3'', ''m3'')])))"
    by (simp add: results_positive [OF bounded_init] sys_maxsize_def del: run.simps)
  from h replay_unknown_id_not_found [OF h] show ?thesis by simp
qed

subsection \<open>The length of a log\<close>

text \<open>
  Claim C6. In every state that calls of \<^verbatim>\<open>store_event\<close> lead to from a new store whose
  capacity \<open>n\<close> is one that a deque can have (\<open>0 \<le> n \<le> sys.maxsize\<close>), one more call on a stream
  leaves the length of that stream's log unchanged when the log holds \<open>n\<close> entries, and makes
  it one longer otherwise; the log never holds more than \<open>n\<close> entries. (A stream without a
  deque counts as an empty log, as in \<^verbatim>\<open>self.streams.get(stream_id, deque())\<close>. With \<open>n = 0\<close>
  the call raises, and the length stays 0. Outside this range \<^verbatim>\<open>deque(maxlen=n)\<close> raises, see
  \<open>store_event_no_deque\<close>.)
\<close>

theorem store_event_log_length:
  assumes "0 \<le> n" and "n \<le> sys_maxsize"
    and "self = fst (run (InMemoryEventStore_init n) calls)"
  shows "length (stream_events (fst (store_event self sid uuid msg)) sid) =
           (if int (length (stream_events self sid)) = n
            then length (stream_events self sid)
            else length (stream_events self sid) + 1) \<and>
         int (length (stream_events (fst (store_event self sid uuid msg)) sid)) \<le> n"
proof -
  note le = assms(2)
  have b: "bounded n self"
    unfolding assms(3) using bounded_init by (rule bounded_run)
  then have len: "length (stream_events self sid) \<le> nat n"
    by (rule stream_events_length)
  show ?thesis
  proof (cases "n = 0")
    case True
    with b len show ?thesis
      by (simp add: store_event_zero) (simp add: stream_events_def)
  next
    case False
    with assms(1) have pos: "1 \<le> n" by simp
    show ?thesis
    proof (cases "length (stream_events self sid) = nat n")
      case True
      with pos have "stream_events self sid \<noteq> []" by auto
      with True pos show ?thesis
        by (simp add: stream_events_store_event [OF b pos le])
    next
      case False
      with len pos show ?thesis
        by (simp add: stream_events_store_event [OF b pos le]) linarith
    qed
  qed
qed

theorem store_event_log_length_witness:
  "(0::int) \<le> 2 \<and> 2 \<le> sys_maxsize \<and>
   length (stream_events (fst (run (InMemoryEventStore_init 2)
             [(''A'', ''e1'', ''m1''), (''A'', ''e2'', ''m2'')])) ''A'') = 2 \<and>
   length (stream_events (fst (store_event (fst (run (InMemoryEventStore_init 2)
             [(''A'', ''e1'', ''m1''), (''A'', ''e2'', ''m2'')])) ''A'' ''e3'' ''m3'')) ''A'') = 2 \<and>
   length (stream_events (fst (run (InMemoryEventStore_init 2)
             [(''A'', ''e1'', ''m1''), (''A'', ''e2'', ''m2'')])) ''B'') = 0 \<and>
   length (stream_events (fst (store_event (fst (run (InMemoryEventStore_init 2)
             [(''A'', ''e1'', ''m1''), (''A'', ''e2'', ''m2'')])) ''B'' ''e3'' ''m3'')) ''B'') = 1"
proof -
  let ?self = "fst (run (InMemoryEventStore_init 2)
             [(''A'', ''e1'', ''m1''), (''A'', ''e2'', ''m2'')])"
  have a: "length (stream_events ?self ''A'') = 2"
    by (simp add: store_event_def ensure_stream_def evict_oldest_def deque_new_def
        deque_first_def deque_append_def stream_events_def InMemoryEventStore_init_def
        sys_maxsize_def Let_def)
  have b: "length (stream_events ?self ''B'') = 0"
    by (simp add: store_event_def ensure_stream_def evict_oldest_def deque_new_def
        deque_first_def deque_append_def stream_events_def InMemoryEventStore_init_def
        sys_maxsize_def Let_def)
  have h: "(0::int) \<le> 2" by simp
  have h': "2 \<le> sys_maxsize" by (simp add: sys_maxsize_def)
  from a b h h'
    store_event_log_length [OF h h' refl,
      of "[(''A'', ''e1'', ''m1''), (''A'', ''e2'', ''m2'')]" "''A''" "''e3''" "''m3''"]
    store_event_log_length [OF h h' refl,
      of "[(''A'', ''e1'', ''m1''), (''A'', ''e2'', ''m2'')]" "''B''" "''e3''" "''m3''"]
  show ?thesis by (simp del: run.simps)
qed

subsection \<open>The index and the logs agree\<close>

lemma indexed_mono: "indexed U self \<Longrightarrow> U \<subseteq> V \<Longrightarrow> indexed V self"
  unfolding indexed_def by blast

lemma indexed_init: "indexed {} (InMemoryEventStore_init n)"
  by (simp add: indexed_def InMemoryEventStore_init_def stream_events_def)

lemma indexed_store_event_positive:
  assumes b: "bounded n self" and pos: "1 \<le> n" and le: "n \<le> sys_maxsize"
    and ix: "indexed U self" and fresh: "uuid \<notin> U"
  shows "indexed (insert uuid U) (fst (store_event self sid uuid msg))"
proof -
  let ?self' = "fst (store_event self sid uuid msg)"
  let ?e = "\<lparr>event_id = uuid, stream_id = sid, message = msg\<rparr>"
  let ?L = "stream_events self sid"
  let ?full = "length ?L = nat n"
  let ?L' = "if ?full then tl ?L else ?L"
  note ev = stream_events_store_event [OF b pos le, of sid uuid msg]
  note idx = store_event_fields(3) [OF b pos le, of sid uuid msg]
  have distinct_old: "\<And>t. distinct (map event_id (stream_events self t))"
    and in_old: "\<And>t e. e \<in> set (stream_events self t) \<Longrightarrow>
                   stream_id e = t \<and> event_index self (event_id e) = Some e"
    and idx_old: "\<And>eid e. event_index self eid = Some e \<Longrightarrow>
                   eid \<in> U \<and> event_id e = eid \<and> e \<in> set (stream_events self (stream_id e))"
    using ix unfolding indexed_def by blast+
  have old_id: "\<And>t e. e \<in> set (stream_events self t) \<Longrightarrow> event_id e \<noteq> uuid"
    using in_old idx_old fresh by metis
  have sub: "set ?L' \<subseteq> set ?L"
    by (cases ?L) auto
  have dist': "distinct (map event_id ?L')"
    using distinct_old [of sid] by (cases ?L) auto
  have full_nonempty: "?full \<Longrightarrow> ?L \<noteq> []"
    using pos by auto
  have hd_not_tl: "\<And>e. ?full \<Longrightarrow> e \<in> set (tl ?L) \<Longrightarrow> event_id e \<noteq> event_id (hd ?L)"
    using distinct_old [of sid] full_nonempty by (cases ?L) (auto intro: rev_image_eqI)
  have hd_other: "\<And>t e. ?full \<Longrightarrow> t \<noteq> sid \<Longrightarrow> e \<in> set (stream_events self t) \<Longrightarrow>
                    event_id e \<noteq> event_id (hd ?L)"
  proof
    fix t e
    assume f: ?full and t: "t \<noteq> sid" and e: "e \<in> set (stream_events self t)"
      and eq: "event_id e = event_id (hd ?L)"
    from f full_nonempty have "hd ?L \<in> set ?L" by simp
    from in_old [OF this] in_old [OF e] eq t show False by simp
  qed
  have new_index: "\<And>e. e \<in> set ?L' \<Longrightarrow> event_index ?self' (event_id e) = Some e"
  proof -
    fix e assume e: "e \<in> set ?L'"
    with sub have eL: "e \<in> set ?L" by blast
    from old_id [OF eL] in_old [OF eL] hd_not_tl [of e] e
    show "event_index ?self' (event_id e) = Some e"
      by (simp add: idx split: if_splits)
  qed
  have other_index: "\<And>t e. t \<noteq> sid \<Longrightarrow> e \<in> set (stream_events self t) \<Longrightarrow>
                       event_index ?self' (event_id e) = Some e"
  proof -
    fix t e assume t: "t \<noteq> sid" and e: "e \<in> set (stream_events self t)"
    from old_id [OF e] in_old [OF e] hd_other [OF _ t e]
    show "event_index ?self' (event_id e) = Some e"
      by (simp add: idx)
  qed
  have part1: "\<And>t. distinct (map event_id (stream_events ?self' t)) \<and>
        (\<forall>e \<in> set (stream_events ?self' t).
           stream_id e = t \<and> event_index ?self' (event_id e) = Some e)"
  proof -
    fix t
    show "distinct (map event_id (stream_events ?self' t)) \<and>
        (\<forall>e \<in> set (stream_events ?self' t).
           stream_id e = t \<and> event_index ?self' (event_id e) = Some e)"
    proof (cases "t = sid")
      case True
      have "uuid \<notin> event_id ` set ?L'"
        using old_id [of _ sid] sub by blast
      with dist' have d: "distinct (map event_id (?L' @ [?e]))"
        by simp
      have i: "\<forall>e \<in> set (?L' @ [?e]). stream_id e = sid \<and> event_index ?self' (event_id e) = Some e"
      proof
        fix e assume "e \<in> set (?L' @ [?e])"
        then consider "e = ?e" | "e \<in> set ?L'" by auto
        then show "stream_id e = sid \<and> event_index ?self' (event_id e) = Some e"
        proof cases
          case 1
          then show ?thesis by (simp add: idx)
        next
          case 2
          with sub in_old [of e sid] new_index [of e] show ?thesis by blast
        qed
      qed
      from d i show ?thesis unfolding True ev by simp
    next
      case False
      with distinct_old [of t] in_old [of _ t] other_index [of t]
      show ?thesis unfolding ev by simp
    qed
  qed
  have part2: "\<And>eid e. event_index ?self' eid = Some e \<Longrightarrow>
        eid \<in> insert uuid U \<and> event_id e = eid \<and> e \<in> set (stream_events ?self' (stream_id e))"
  proof -
    fix eid e assume a: "event_index ?self' eid = Some e"
    show "eid \<in> insert uuid U \<and> event_id e = eid \<and> e \<in> set (stream_events ?self' (stream_id e))"
    proof (cases "eid = uuid")
      case True
      with a have "e = ?e" by (simp add: idx)
      with True show ?thesis by (simp add: ev)
    next
      case False
      with a have old: "event_index self eid = Some e" and nothd: "?full \<Longrightarrow> eid \<noteq> event_id (hd ?L)"
        by (auto simp: idx split: if_splits)
      from idx_old [OF old] have u: "eid \<in> U" and id: "event_id e = eid"
        and mem: "e \<in> set (stream_events self (stream_id e))" by blast+
      have "e \<in> set (stream_events ?self' (stream_id e))"
      proof (cases "stream_id e = sid")
        case True
        with mem have eL: "e \<in> set ?L" by simp
        have "e \<in> set ?L'"
        proof (cases ?full)
          case True
          with nothd id have "e \<noteq> hd ?L" by auto
          with eL True show ?thesis by (cases ?L) auto
        next
          case False
          with eL show ?thesis by simp
        qed
        with True show ?thesis by (simp add: ev)
      next
        case False
        with mem show ?thesis by (simp add: ev)
      qed
      with u id show ?thesis by simp
    qed
  qed
  show ?thesis
    unfolding indexed_def using part1 part2 by blast
qed

lemma indexed_store_event:
  assumes b: "bounded n self" and ix: "indexed U self" and fresh: "uuid \<notin> U"
  shows "indexed (insert uuid U) (fst (store_event self sid uuid msg))"
proof -
  consider "n < 0 \<or> sys_maxsize < n" | "n = 0" | "1 \<le> n" "n \<le> sys_maxsize" by linarith
  then show ?thesis
  proof cases
    case 1
    have "fst (store_event self sid uuid msg) = self"
      by (simp add: store_event_no_deque [OF b 1])
    with ix show ?thesis by (auto intro: indexed_mono)
  next
    case 2
    have "stream_events self sid = []"
      using stream_events_length [OF b, of sid] 2 by simp
    then have "\<And>t. stream_events (fst (store_event self sid uuid msg)) t = stream_events self t"
      using b 2 by (simp add: store_event_zero) (simp add: stream_events_def)
    moreover have "event_index (fst (store_event self sid uuid msg)) = event_index self"
      using b 2 by (simp add: store_event_zero)
    ultimately have "indexed U (fst (store_event self sid uuid msg))"
      using ix unfolding indexed_def by simp
    then show ?thesis by (auto intro: indexed_mono)
  next
    case 3
    from b 3 ix fresh show ?thesis by (rule indexed_store_event_positive)
  qed
qed

lemma indexed_run:
  assumes "bounded n self" "indexed U self" "distinct (drawn calls)" "set (drawn calls) \<inter> U = {}"
  shows "indexed (U \<union> set (drawn calls)) (fst (run self calls))"
  using assms
proof (induction calls arbitrary: self U)
  case Nil
  then show ?case by (simp add: drawn_def)
next
  case (Cons c calls)
  obtain sid uuid msg where c: "c = (sid, uuid, msg)" by (cases c) auto
  from Cons.prems c have fresh: "uuid \<notin> U" and d: "distinct (drawn calls)"
    and disj: "set (drawn calls) \<inter> insert uuid U = {}"
    by (auto simp: drawn_def)
  have b': "bounded n (fst (store_event self sid uuid msg))"
    using Cons.prems(1) by (rule bounded_store_event)
  have ix': "indexed (insert uuid U) (fst (store_event self sid uuid msg))"
    using Cons.prems(1,2) fresh by (rule indexed_store_event)
  have "insert uuid U \<union> set (drawn calls) = U \<union> set (drawn (c # calls))"
    by (auto simp: drawn_def c)
  with Cons.IH [OF b' ix' d disj] show ?case
    unfolding c fst_run_Cons by simp
qed

subsection \<open>What the logs hold, and what the loop delivers\<close>

lemma entries_on_snoc:
  "entries_on t (calls @ [(sid, uuid, msg)]) =
     entries_on t calls @
       (if sid = t then [\<lparr>event_id = uuid, stream_id = sid, message = msg\<rparr>] else [])"
  by (simp add: entries_on_def entry_of_def)

lemma entries_on_Nil: "entries_on t [] = []"
  by (simp add: entries_on_def)

lemma last_entries_snoc:
  assumes "0 < k"
  shows "(if length (drop (length xs - k) xs) = k
          then tl (drop (length xs - k) xs) else drop (length xs - k) xs) @ [x]
         = drop (length (xs @ [x]) - k) (xs @ [x])"
proof (cases "k \<le> length xs")
  case True
  with assms have "Suc (length xs) - k = Suc (length xs - k)" by simp
  with True assms show ?thesis
    by (simp add: tl_drop drop_Suc)
next
  case False
  then show ?thesis by simp
qed

text \<open>
  The log of a stream holds the last \<open>n\<close> entries that were stored on it; with a bound that
  \<^verbatim>\<open>deque\<close> refuses the store never leaves its first state.
\<close>

lemma run_overflow:
  "sys_maxsize < n \<Longrightarrow> fst (run (InMemoryEventStore_init n) calls) = InMemoryEventStore_init n"
  by (simp add: run_no_deque [OF bounded_init])

lemma stream_events_run:
  assumes le: "n \<le> sys_maxsize"
  shows "stream_events (fst (run (InMemoryEventStore_init n) calls)) t =
     drop (length (entries_on t calls) - nat n) (entries_on t calls)"
proof (induction calls rule: rev_induct)
  case Nil
  show ?case
    by (simp add: entries_on_Nil stream_events_def InMemoryEventStore_init_def)
next
  case (snoc c calls)
  obtain sid uuid msg where c: "c = (sid, uuid, msg)" by (cases c) auto
  let ?self = "fst (run (InMemoryEventStore_init n) calls)"
  have b: "bounded n ?self"
    using bounded_init by (rule bounded_run)
  consider "n < 0" | "n = 0" | "1 \<le> n" by linarith
  then show ?case
  proof cases
    case 1
    then have "n < 0 \<or> sys_maxsize < n" by simp
    then have "fst (store_event ?self sid uuid msg) = ?self"
      by (simp add: store_event_no_deque [OF b])
    with 1 snoc show ?thesis
      unfolding c fst_run_snoc by simp
  next
    case 2
    have "bounded n (fst (store_event ?self sid uuid msg))"
      using b by (rule bounded_store_event)
    from stream_events_length [OF this, of t] 2 show ?thesis
      unfolding c fst_run_snoc by simp
  next
    case 3
    then have k: "0 < nat n" by simp
    show ?thesis
    proof (cases "t = sid")
      case True
      with snoc.IH have ih: "stream_events ?self sid =
          drop (length (entries_on sid calls) - nat n) (entries_on sid calls)"
        by simp
      show ?thesis
        unfolding c fst_run_snoc stream_events_store_event [OF b 3 le] True ih
        using last_entries_snoc [OF k, of "entries_on sid calls"]
        by (simp add: entries_on_snoc)
    next
      case False
      then show ?thesis
        unfolding c fst_run_snoc stream_events_store_event [OF b 3 le] snoc.IH
        by (simp add: entries_on_snoc)
    qed
  qed
qed

lemma indexed_reachable:
  assumes "distinct (drawn calls)"
  shows "indexed (set (drawn calls)) (fst (run (InMemoryEventStore_init n) calls))"
  using indexed_run [OF bounded_init indexed_init assms, of n] by simp

lemma replay_loop_found: "replay_loop i True es = map to_message es"
  by (induction es) (simp_all add: to_message_def)

lemma replay_loop_distinct:
  "distinct (map event_id es) \<Longrightarrow> k < length es \<Longrightarrow>
     replay_loop (event_id (es ! k)) False es = map to_message (drop (Suc k) es)"
proof (induction es arbitrary: k)
  case Nil
  then show ?case by simp
next
  case (Cons e es)
  show ?case
  proof (cases k)
    case 0
    then show ?thesis by (simp add: replay_loop_found)
  next
    case (Suc j)
    with Cons.prems have j: "j < length es" by simp
    then have "es ! j \<in> set es" by (rule nth_mem)
    with Cons.prems(1) have "event_id (es ! j) \<noteq> event_id e"
      by (auto intro: rev_image_eqI)
    with Cons.IH [of j] Cons.prems(1) Suc j show ?thesis by simp
  qed
qed

lemma replay_loop_subset: "set (replay_loop i f es) \<subseteq> to_message ` set es"
  by (induction es arbitrary: f) (auto simp: to_message_def)

subsection \<open>Ids of calls\<close>

lemma entry_of_simps:
  "event_id (entry_of c) = fst (snd c)"
  "stream_id (entry_of c) = fst c"
  "message (entry_of c) = snd (snd c)"
  by (simp_all add: entry_of_def split: prod.splits)

lemma set_entries_on:
  "set (entries_on t calls) = entry_of ` {c \<in> set calls. fst c = t}"
  by (auto simp: entries_on_def)

lemma drawn_inj:
  assumes "distinct (drawn calls)" "c \<in> set calls" "c' \<in> set calls" "fst (snd c) = fst (snd c')"
  shows "c = c'"
proof -
  from assms(1) have "inj_on (\<lambda>c. fst (snd c)) (set calls)"
    by (simp add: drawn_def distinct_map)
  from this assms(4,2,3) show ?thesis by (rule inj_onD)
qed

lemma distinct_entries_on:
  assumes "distinct (drawn calls)"
  shows "distinct (map event_id (entries_on t calls))"
proof -
  have "map event_id (entries_on t calls) = map (\<lambda>c. fst (snd c)) (filter (\<lambda>c. fst c = t) calls)"
    by (simp add: entries_on_def entry_of_simps)
  with assms show ?thesis
    by (simp add: drawn_def distinct_map_filter)
qed

text \<open>Whatever a log or the index holds was put there by a call that returned.\<close>

lemma logged_entries:
  assumes "x \<in> set (stream_events (fst (run (InMemoryEventStore_init n) calls)) t)"
  shows "x \<in> set (entries_on t calls)"
proof (cases "n \<le> sys_maxsize")
  case True
  from assms show ?thesis
    unfolding stream_events_run [OF True] by (rule in_set_dropD)
next
  case False
  then have "sys_maxsize < n" by simp
  with assms show ?thesis
    by (simp add: run_overflow) (simp add: stream_events_def InMemoryEventStore_init_def)
qed

lemma index_nonempty_le:
  assumes "event_index (fst (run (InMemoryEventStore_init n) calls)) eid = Some e"
  shows "n \<le> sys_maxsize"
proof (rule ccontr)
  assume "\<not> n \<le> sys_maxsize"
  then have "sys_maxsize < n" by simp
  with assms show False
    by (simp add: run_overflow) (simp add: InMemoryEventStore_init_def)
qed

lemma returned_id_capacity:
  assumes "i \<in> set (returned_ids (snd (run (InMemoryEventStore_init n) calls)))"
  shows "1 \<le> n \<and> n \<le> sys_maxsize"
proof (rule ccontr)
  assume "\<not> (1 \<le> n \<and> n \<le> sys_maxsize)"
  then consider "n = 0" | "n < 0 \<or> sys_maxsize < n" by linarith
  then show False
  proof cases
    case 1
    have "snd (run (InMemoryEventStore_init 0) calls) = map (\<lambda>c. Inl IndexError) calls"
      using bounded_init by (rule results_zero)
    with assms 1 show False
      by (simp add: returned_ids_all_raised)
  next
    case 2
    with assms show False
      by (simp add: run_no_deque [OF bounded_init] returned_ids_all_raised)
  qed
qed

text \<open>
  An id that the index holds is the id of a call; the index maps it to the entry of that
  call, and the entry is in the log of the stream of the call.
\<close>

lemma index_lookup:
  assumes d: "distinct (drawn calls)"
    and a: "event_index (fst (run (InMemoryEventStore_init n) calls)) eid = Some e"
  shows "\<exists>c \<in> set calls. e = entry_of c \<and> fst (snd c) = eid \<and>
           e \<in> set (stream_events (fst (run (InMemoryEventStore_init n) calls)) (fst c))"
proof -
  let ?self = "fst (run (InMemoryEventStore_init n) calls)"
  from indexed_reachable [OF d, of n] a
  have id: "event_id e = eid" and mem: "e \<in> set (stream_events ?self (stream_id e))"
    unfolding indexed_def by blast+
  from mem have "e \<in> set (entries_on (stream_id e) calls)"
    by (rule logged_entries)
  then obtain c where c: "c \<in> set calls" "fst c = stream_id e" "e = entry_of c"
    by (auto simp: set_entries_on)
  from id c(3) have "fst (snd c) = eid"
    by (simp add: entry_of_simps)
  moreover from mem c(2) have "e \<in> set (stream_events ?self (fst c))"
    by simp
  ultimately show ?thesis
    using c(1,3) by blast
qed

lemma logged_indexed:
  assumes d: "distinct (drawn calls)"
    and a: "e \<in> set (stream_events (fst (run (InMemoryEventStore_init n) calls)) t)"
  shows "event_index (fst (run (InMemoryEventStore_init n) calls)) (event_id e) = Some e
         \<and> stream_id e = t"
  using indexed_reachable [OF d, of n] a unfolding indexed_def by blast

subsection \<open>Replay\<close>

text \<open>
  Claim C1. Take any sequence of \<^verbatim>\<open>store_event\<close> calls on a new store of capacity \<open>n\<close>, with
  pairwise distinct drawn ids, in which the calls on stream \<open>sid\<close> are not more than \<open>n\<close>
  (calls on other streams may come in between), and take the \<open>j\<close>-th call on \<open>sid\<close>. When
  \<open>n\<close> is a capacity that a deque can have, that call returned its id. And whenever its id is
  one that a call returned, a replay after it passes to the callback exactly the entries
  of the later calls on \<open>sid\<close>, one \<^verbatim>\<open>EventMessage\<close> each, in the order of the calls, and
  returns \<open>sid\<close>; the store is unchanged.
\<close>

theorem replay_within_capacity:
  assumes "distinct (drawn calls)"
    and "int (length (entries_on sid calls)) \<le> n"
    and "j < length (entries_on sid calls)"
  shows "(n \<le> sys_maxsize \<longrightarrow>
            event_id (entries_on sid calls ! j)
              \<in> set (returned_ids (snd (run (InMemoryEventStore_init n) calls)))) \<and>
         (event_id (entries_on sid calls ! j)
              \<in> set (returned_ids (snd (run (InMemoryEventStore_init n) calls))) \<longrightarrow>
            replay_events_after (fst (run (InMemoryEventStore_init n) calls))
                (event_id (entries_on sid calls ! j))
              = (fst (run (InMemoryEventStore_init n) calls),
                 map (\<lambda>e. EventMessage (message e) (event_id e))
                   (drop (Suc j) (entries_on sid calls)),
                 Some sid))"
proof (intro conjI impI)
  let ?E = "entries_on sid calls"
  assume le: "n \<le> sys_maxsize"
  from assms(2,3) have pos: "1 \<le> n" by linarith
  from assms(3) have "?E ! j \<in> set ?E" by (rule nth_mem)
  then obtain c where c: "c \<in> set calls" "?E ! j = entry_of c"
    by (auto simp: set_entries_on)
  from c(1) have "fst (snd c) \<in> set (map (\<lambda>c. fst (snd c)) calls)" by simp
  then show "event_id (?E ! j) \<in> set (returned_ids (snd (run (InMemoryEventStore_init n) calls)))"
    by (simp only: results_positive [OF bounded_init pos le] returned_ids_all_returned
        c(2) entry_of_simps)
next
  let ?self = "fst (run (InMemoryEventStore_init n) calls)"
  let ?E = "entries_on sid calls"
  assume "event_id (?E ! j) \<in> set (returned_ids (snd (run (InMemoryEventStore_init n) calls)))"
  then have le: "n \<le> sys_maxsize"
    using returned_id_capacity by blast
  from assms(2) have log: "stream_events ?self sid = ?E"
    by (simp add: stream_events_run [OF le])
  from assms(3) have "?E ! j \<in> set (stream_events ?self sid)"
    unfolding log by (rule nth_mem)
  from logged_indexed [OF assms(1) this]
  have idx: "event_index ?self (event_id (?E ! j)) = Some (?E ! j)"
    and sid: "stream_id (?E ! j) = sid"
    by simp_all
  have "replay_loop (event_id (?E ! j)) False ?E = map to_message (drop (Suc j) ?E)"
    using distinct_entries_on [OF assms(1)] assms(3) by (rule replay_loop_distinct)
  also have "\<dots> = map (\<lambda>e. EventMessage (message e) (event_id e)) (drop (Suc j) ?E)"
    by (simp add: to_message_def [abs_def])
  finally have loop: "replay_loop (event_id (?E ! j)) False ?E
      = map (\<lambda>e. EventMessage (message e) (event_id e)) (drop (Suc j) ?E)" .
  show "replay_events_after ?self (event_id (?E ! j))
          = (?self, map (\<lambda>e. EventMessage (message e) (event_id e)) (drop (Suc j) ?E),
             Some sid)"
    by (simp only: replay_events_after_def idx option.case sid log loop)
qed

theorem replay_within_capacity_witness:
  "distinct (drawn [(''A'', ''e1'', ''m1''), (''B'', ''e2'', ''m2''), (''A'', ''e3'', ''m3''),
                    (''A'', ''e4'', ''m4'')]) \<and>
   int (length (entries_on ''A'' [(''A'', ''e1'', ''m1''), (''B'', ''e2'', ''m2''),
                                  (''A'', ''e3'', ''m3''), (''A'', ''e4'', ''m4'')])) \<le> 3 \<and>
   3 \<le> sys_maxsize \<and>
   ''e1'' \<in> set (returned_ids (snd (run (InMemoryEventStore_init 3)
          [(''A'', ''e1'', ''m1''), (''B'', ''e2'', ''m2''), (''A'', ''e3'', ''m3''),
           (''A'', ''e4'', ''m4'')]))) \<and>
   replay_events_after
       (fst (run (InMemoryEventStore_init 3)
          [(''A'', ''e1'', ''m1''), (''B'', ''e2'', ''m2''), (''A'', ''e3'', ''m3''),
           (''A'', ''e4'', ''m4'')])) ''e1''
     = (fst (run (InMemoryEventStore_init 3)
          [(''A'', ''e1'', ''m1''), (''B'', ''e2'', ''m2''), (''A'', ''e3'', ''m3''),
           (''A'', ''e4'', ''m4'')]),
        [EventMessage ''m3'' ''e3'', EventMessage ''m4'' ''e4''], Some ''A'')"
proof -
  let ?calls = "[(''A'', ''e1'', ''m1''), (''B'', ''e2'', ''m2''), (''A'', ''e3'', ''m3''),
                 (''A'', ''e4'', ''m4'')]"
  have E: "entries_on ''A'' ?calls =
      [\<lparr>event_id = ''e1'', stream_id = ''A'', message = ''m1''\<rparr>,
       \<lparr>event_id = ''e3'', stream_id = ''A'', message = ''m3''\<rparr>,
       \<lparr>event_id = ''e4'', stream_id = ''A'', message = ''m4''\<rparr>]"
    by (simp add: entries_on_def entry_of_def)
  have h1: "distinct (drawn ?calls)" by (simp add: drawn_def)
  have h2: "int (length (entries_on ''A'' ?calls)) \<le> 3" by (simp add: E)
  have h3: "0 < length (entries_on ''A'' ?calls)" by (simp add: E)
  have le: "3 \<le> sys_maxsize" by (simp add: sys_maxsize_def)
  note t = replay_within_capacity [OF h1 h2 h3]
  note r = t [THEN conjunct1, rule_format, OF le]
  from h1 h2 le r t [THEN conjunct2, rule_format, OF r] show ?thesis
    by (simp add: E del: run.simps)
qed

subsection \<open>Eviction\<close>

text \<open>
  Claim C2. After any sequence of \<^verbatim>\<open>store_event\<close> calls with pairwise distinct drawn ids on a
  new store of capacity \<open>n \<ge> 0\<close>: for every stream the ids that the index maps to an entry of
  that stream are finitely many and at most \<open>n\<close>; and an entry of a stream after which \<open>n\<close> or
  more further entries went to the same stream (an evicted one) has no id in the index, so
  that a replay after its id gives \<^verbatim>\<open>None\<close> and calls the callback not at all. Every state the
  store passes through is the end of such a sequence, so this holds at all times.
\<close>

theorem evicted_ids_not_found:
  assumes "0 \<le> n" and "distinct (drawn calls)"
    and "self = fst (run (InMemoryEventStore_init n) calls)"
  shows "(\<forall>sid. finite {eid. \<exists>e. event_index self eid = Some e \<and> stream_id e = sid} \<and>
            int (card {eid. \<exists>e. event_index self eid = Some e \<and> stream_id e = sid}) \<le> n) \<and>
         (\<forall>sid k. k + nat n < length (entries_on sid calls) \<longrightarrow>
            event_index self (event_id (entries_on sid calls ! k)) = None \<and>
            replay_events_after self (event_id (entries_on sid calls ! k)) = (self, [], None))"
proof (intro conjI allI impI)
  fix sid
  let ?I = "{eid. \<exists>e. event_index self eid = Some e \<and> stream_id e = sid}"
  have b: "bounded n self"
    unfolding assms(3) using bounded_init by (rule bounded_run)
  have sub: "?I \<subseteq> event_id ` set (stream_events self sid)"
  proof
    fix eid assume "eid \<in> ?I"
    then obtain e where e: "event_index self eid = Some e" "stream_id e = sid" by blast
    from index_lookup [OF assms(2) e(1) [unfolded assms(3)]]
    obtain c where c: "e = entry_of c" "fst (snd c) = eid"
      "e \<in> set (stream_events self (fst c))"
      unfolding assms(3) by blast
    from c(1) e(2) have "fst c = sid" by (simp add: entry_of_simps)
    with c(3) have "e \<in> set (stream_events self sid)" by simp
    moreover from c(1,2) have "event_id e = eid" by (simp add: entry_of_simps)
    ultimately show "eid \<in> event_id ` set (stream_events self sid)" by blast
  qed
  then show fin: "finite ?I"
    by (rule finite_subset) simp
  have "card ?I \<le> card (event_id ` set (stream_events self sid))"
    using sub by (intro card_mono) simp_all
  also have "\<dots> \<le> card (set (stream_events self sid))"
    by (rule card_image_le) simp
  also have "\<dots> \<le> length (stream_events self sid)"
    by (rule card_length)
  also have "\<dots> \<le> nat n"
    using b by (rule stream_events_length)
  finally show "int (card ?I) \<le> n"
    using assms(1) by linarith
next
  fix sid k
  let ?E = "entries_on sid calls"
  assume k: "k + nat n < length ?E"
  show absent: "event_index self (event_id (?E ! k)) = None"
  proof (rule ccontr)
    assume "event_index self (event_id (?E ! k)) \<noteq> None"
    then obtain e where e: "event_index self (event_id (?E ! k)) = Some e" by blast
    from index_lookup [OF assms(2) e [unfolded assms(3)]]
    obtain c where c: "c \<in> set calls" "e = entry_of c" "fst (snd c) = event_id (?E ! k)"
      "e \<in> set (stream_events self (fst c))"
      unfolding assms(3) by blast
    from k have "?E ! k \<in> set ?E" by simp
    then obtain c' where c': "c' \<in> set calls" "fst c' = sid" "?E ! k = entry_of c'"
      by (auto simp: set_entries_on)
    from c(3) have "fst (snd c) = fst (snd c')"
      by (simp only: c'(3) entry_of_simps)
    with assms(2) c(1) c'(1) have "c = c'" by (rule drawn_inj)
    with c c' have eq: "e = ?E ! k" and "fst c = sid" by simp_all
    moreover have "n \<le> sys_maxsize"
      using e [unfolded assms(3)] by (rule index_nonempty_le)
    ultimately have "?E ! k \<in> set (drop (length ?E - nat n) ?E)"
      using c(4) by (simp add: assms(3) stream_events_run)
    moreover have "?E ! k \<in> set (take (length ?E - nat n) ?E)"
      using k by (simp add: in_set_conv_nth) (metis add_lessD1 less_diff_conv nth_take)
    moreover have "distinct ?E"
      using distinct_entries_on [OF assms(2), of sid] by (simp add: distinct_map)
    then have "set (take (length ?E - nat n) ?E) \<inter> set (drop (length ?E - nat n) ?E) = {}"
      by (rule set_take_disj_set_drop_if_distinct) simp
    ultimately show False by blast
  qed
  then show "replay_events_after self (event_id (?E ! k)) = (self, [], None)"
    by (simp add: replay_events_after_def)
qed

theorem evicted_ids_not_found_witness:
  "(0::int) \<le> 2 \<and>
   distinct (drawn [(''S'', ''e1'', ''m1''), (''S'', ''e2'', ''m2''), (''S'', ''e3'', ''m3'')]) \<and>
   0 + nat 2 < length (entries_on ''S''
                  [(''S'', ''e1'', ''m1''), (''S'', ''e2'', ''m2''), (''S'', ''e3'', ''m3'')]) \<and>
   event_index (fst (run (InMemoryEventStore_init 2)
       [(''S'', ''e1'', ''m1''), (''S'', ''e2'', ''m2''), (''S'', ''e3'', ''m3'')])) ''e1'' = None \<and>
   replay_events_after (fst (run (InMemoryEventStore_init 2)
       [(''S'', ''e1'', ''m1''), (''S'', ''e2'', ''m2''), (''S'', ''e3'', ''m3'')])) ''e1''
     = (fst (run (InMemoryEventStore_init 2)
         [(''S'', ''e1'', ''m1''), (''S'', ''e2'', ''m2''), (''S'', ''e3'', ''m3'')]), [], None) \<and>
   int (card {eid. \<exists>e. event_index (fst (run (InMemoryEventStore_init 2)
       [(''S'', ''e1'', ''m1''), (''S'', ''e2'', ''m2''), (''S'', ''e3'', ''m3'')])) eid = Some e
         \<and> stream_id e = ''S''}) \<le> 2"
proof -
  let ?calls = "[(''S'', ''e1'', ''m1''), (''S'', ''e2'', ''m2''), (''S'', ''e3'', ''m3'')]"
  have h1: "(0::int) \<le> 2" by simp
  have h2: "distinct (drawn ?calls)" by (simp add: drawn_def)
  have k: "0 + nat 2 < length (entries_on ''S'' ?calls)" by (simp add: entries_on_def)
  have e: "event_id (entries_on ''S'' ?calls ! 0) = ''e1''"
    by (simp add: entries_on_def entry_of_def)
  note t = evicted_ids_not_found [OF h1 h2 refl]
  from t [THEN conjunct2, rule_format, OF k] t [THEN conjunct1, rule_format, of "''S''"] h1 h2 k
  show ?thesis
    unfolding e by (simp del: run.simps)
qed

subsection \<open>Streams do not mix\<close>

text \<open>
  Claim C4. After any interleaved sequence of \<^verbatim>\<open>store_event\<close> calls with pairwise distinct
  drawn ids, a replay after the id of a call on stream \<open>A\<close> passes to the callback only
  messages of calls on \<open>A\<close>: no delivered \<^verbatim>\<open>EventMessage\<close> carries the id of a call on a
  stream \<open>B \<noteq> A\<close>, and the replay returns \<open>A\<close> or, when the id was evicted, \<^verbatim>\<open>None\<close>.
\<close>

theorem replay_stays_on_stream:
  assumes "distinct (drawn calls)" and "(sidA, uuid, msg) \<in> set calls"
    and "replay_events_after (fst (run (InMemoryEventStore_init n) calls)) uuid
           = (self', delivered, r)"
  shows "(\<forall>d \<in> set delivered. \<exists>u m. (sidA, u, m) \<in> set calls \<and> d = EventMessage m u) \<and>
         (\<forall>sidB u m. sidB \<noteq> sidA \<and> (sidB, u, m) \<in> set calls \<longrightarrow>
            (\<forall>m'. EventMessage m' u \<notin> set delivered)) \<and>
         (r = None \<or> r = Some sidA)"
proof -
  let ?self = "fst (run (InMemoryEventStore_init n) calls)"
  have main: "(\<forall>d \<in> set delivered. \<exists>u m. (sidA, u, m) \<in> set calls \<and> d = EventMessage m u) \<and>
         (r = None \<or> r = Some sidA)"
  proof (cases "event_index ?self uuid")
    case None
    with assms(3) show ?thesis
      by (simp add: replay_events_after_def)
  next
    case (Some e)
    from index_lookup [OF assms(1) Some]
    obtain c where c: "c \<in> set calls" "e = entry_of c" "fst (snd c) = uuid" by blast
    from c(3) have "fst (snd c) = fst (snd (sidA, uuid, msg))" by simp
    with assms(1) c(1) assms(2) have "c = (sidA, uuid, msg)" by (rule drawn_inj)
    with c(2) have sid: "stream_id e = sidA" by (simp add: entry_of_simps)
    from assms(3) Some sid
    have del: "delivered = replay_loop uuid False (stream_events ?self sidA)"
      and r: "r = Some sidA"
      by (auto simp: replay_events_after_def)
    have "\<exists>u m. (sidA, u, m) \<in> set calls \<and> d = EventMessage m u" if "d \<in> set delivered" for d
    proof -
      from that replay_loop_subset [of uuid False "stream_events ?self sidA"]
      have "d \<in> to_message ` set (stream_events ?self sidA)"
        unfolding del by blast
      then obtain x where x: "x \<in> set (stream_events ?self sidA)" "d = to_message x" by blast
      from x(1) have "x \<in> set (entries_on sidA calls)"
        by (rule logged_entries)
      then obtain c' where c': "c' \<in> set calls" "fst c' = sidA" "x = entry_of c'"
        by (auto simp: set_entries_on)
      obtain s u m where cm: "c' = (s, u, m)" by (cases c') auto
      with c' x(2) have "(sidA, u, m) \<in> set calls" "d = EventMessage m u"
        by (simp_all add: to_message_def entry_of_def)
      then show ?thesis by blast
    qed
    with r show ?thesis by blast
  qed
  have "EventMessage m' u \<notin> set delivered"
    if "sidB \<noteq> sidA" "(sidB, u, m) \<in> set calls" for sidB u m m'
  proof
    assume "EventMessage m' u \<in> set delivered"
    with main obtain u' m'' where a: "(sidA, u', m'') \<in> set calls"
      "EventMessage m' u = EventMessage m'' u'" by blast
    then have "fst (snd (sidB, u, m)) = fst (snd (sidA, u', m''))" by simp
    with assms(1) that(2) a(1) have "(sidB, u, m) = (sidA, u', m'')" by (rule drawn_inj)
    with that(1) show False by simp
  qed
  with main show ?thesis by blast
qed

text \<open>A run with two interleaved streams, evaluated.\<close>

lemma two_streams_replay:
  "replay_events_after (fst (run (InMemoryEventStore_init 3)
       [(''A'', ''e1'', ''m1''), (''B'', ''e2'', ''m2''), (''A'', ''e3'', ''m3''),
        (''B'', ''e4'', ''m4'')])) ''e1''
     = (fst (run (InMemoryEventStore_init 3)
         [(''A'', ''e1'', ''m1''), (''B'', ''e2'', ''m2''), (''A'', ''e3'', ''m3''),
          (''B'', ''e4'', ''m4'')]),
        [EventMessage ''m3'' ''e3''], Some ''A'')"
  by (simp add: replay_events_after_def store_event_def ensure_stream_def evict_oldest_def
      deque_new_def deque_first_def deque_append_def stream_events_def
      InMemoryEventStore_init_def sys_maxsize_def Let_def)

theorem replay_stays_on_stream_witness:
  "distinct (drawn [(''A'', ''e1'', ''m1''), (''B'', ''e2'', ''m2''), (''A'', ''e3'', ''m3''),
                    (''B'', ''e4'', ''m4'')]) \<and>
   (''A'', ''e1'', ''m1'') \<in> set [(''A'', ''e1'', ''m1''), (''B'', ''e2'', ''m2''),
                                   (''A'', ''e3'', ''m3''), (''B'', ''e4'', ''m4'')] \<and>
   replay_events_after (fst (run (InMemoryEventStore_init 3)
       [(''A'', ''e1'', ''m1''), (''B'', ''e2'', ''m2''), (''A'', ''e3'', ''m3''),
        (''B'', ''e4'', ''m4'')])) ''e1''
     = (fst (run (InMemoryEventStore_init 3)
         [(''A'', ''e1'', ''m1''), (''B'', ''e2'', ''m2''), (''A'', ''e3'', ''m3''),
          (''B'', ''e4'', ''m4'')]),
        [EventMessage ''m3'' ''e3''], Some ''A'') \<and>
   (\<exists>u m. (''A'', u, m) \<in> set [(''A'', ''e1'', ''m1''), (''B'', ''e2'', ''m2''),
                                     (''A'', ''e3'', ''m3''), (''B'', ''e4'', ''m4'')]
          \<and> EventMessage ''m3'' ''e3'' = EventMessage m u) \<and>
   (\<forall>m'. EventMessage m' ''e4'' \<notin> set [EventMessage ''m3'' ''e3''])"
proof -
  let ?calls = "[(''A'', ''e1'', ''m1''), (''B'', ''e2'', ''m2''), (''A'', ''e3'', ''m3''),
                 (''B'', ''e4'', ''m4'')]"
  have h1: "distinct (drawn ?calls)" by (simp add: drawn_def)
  have h2: "(''A'', ''e1'', ''m1'') \<in> set ?calls" by simp
  note h3 = two_streams_replay
  note t = replay_stays_on_stream [OF h1 h2 h3]
  have b: "''B'' \<noteq> ''A'' \<and> (''B'', ''e4'', ''m4'') \<in> set ?calls" by simp
  have m: "EventMessage ''m3'' ''e3'' \<in> set [EventMessage ''m3'' ''e3'']" by simp
  from h1 h2 h3 t [THEN conjunct1, rule_format, OF m]
    t [THEN conjunct2, THEN conjunct1, rule_format, OF b]
  show ?thesis by (intro conjI allI)
qed

subsection \<open>What a call leaves alone\<close>

text \<open>
  Claim C10. In a state reached by \<^verbatim>\<open>store_event\<close> calls, a further call on stream \<open>sid\<close> with
  a drawn id distinct from all earlier ones leaves every other stream \<open>t\<close> as it was: the
  deque of \<open>t\<close> is the same, and the index maps an id to an entry with \<^verbatim>\<open>stream_id\<close> \<open>t\<close>
  after the call exactly when it did before.
\<close>

theorem store_event_other_streams:
  assumes "distinct (drawn (calls @ [(sid, uuid, msg)]))"
    and "self = fst (run (InMemoryEventStore_init n) calls)" and "t \<noteq> sid"
  shows "streams (fst (store_event self sid uuid msg)) t = streams self t \<and>
         (\<forall>eid e. stream_id e = t \<longrightarrow>
            (event_index (fst (store_event self sid uuid msg)) eid = Some e)
              = (event_index self eid = Some e))"
proof -
  from assms(1) have d: "distinct (drawn calls)" and fresh: "uuid \<notin> set (drawn calls)"
    by (simp_all add: drawn_def)
  have b: "bounded n self"
    unfolding assms(2) using bounded_init by (rule bounded_run)
  have ix: "indexed (set (drawn calls)) self"
    unfolding assms(2) using d by (rule indexed_reachable)
  consider "n < 0 \<or> sys_maxsize < n" | "n = 0" | "1 \<le> n" "n \<le> sys_maxsize" by linarith
  then show ?thesis
  proof cases
    case 1
    have "fst (store_event self sid uuid msg) = self"
      by (simp add: store_event_no_deque [OF b 1])
    then show ?thesis by simp
  next
    case 2
    with b assms(3) show ?thesis
      by (simp add: store_event_zero)
  next
    case 3
    let ?L = "stream_events self sid"
    note idx = store_event_fields(3) [OF b 3, of sid uuid msg]
    have s: "streams (fst (store_event self sid uuid msg)) t = streams self t"
      using assms(3) by (simp add: store_event_fields(2) [OF b 3])
    have i: "(event_index (fst (store_event self sid uuid msg)) eid = Some e)
              = (event_index self eid = Some e)" if e: "stream_id e = t" for eid e
    proof (cases "eid = uuid")
      case True
      have "event_index self uuid \<noteq> Some e"
        using ix fresh unfolding indexed_def by blast
      moreover have "event_index (fst (store_event self sid uuid msg)) uuid \<noteq> Some e"
        using e assms(3) by (auto simp: idx)
      ultimately show ?thesis unfolding True by simp
    next
      case False
      show ?thesis
      proof (cases "length ?L = nat n \<and> eid = event_id (hd ?L)")
        case True
        with 3 have "?L \<noteq> []" by auto
        then have "hd ?L \<in> set ?L" by simp
        with ix have "stream_id (hd ?L) = sid" "event_index self (event_id (hd ?L)) = Some (hd ?L)"
          unfolding indexed_def by blast+
        with True e assms(3) have "event_index self eid \<noteq> Some e" by auto
        moreover from True False have "event_index (fst (store_event self sid uuid msg)) eid = None"
          by (simp add: idx)
        ultimately show ?thesis by simp
      next
        case False
        with \<open>eid \<noteq> uuid\<close> show ?thesis by (auto simp: idx)
      qed
    qed
    from s i show ?thesis by blast
  qed
qed

theorem store_event_other_streams_witness:
  "distinct (drawn ([(''A'', ''e1'', ''m1''), (''B'', ''e2'', ''m2'')] @ [(''A'', ''e3'', ''m3'')])) \<and>
   ''B'' \<noteq> ''A'' \<and>
   streams (fst (store_event (fst (run (InMemoryEventStore_init 1)
              [(''A'', ''e1'', ''m1''), (''B'', ''e2'', ''m2'')])) ''A'' ''e3'' ''m3'')) ''B''
     = streams (fst (run (InMemoryEventStore_init 1)
              [(''A'', ''e1'', ''m1''), (''B'', ''e2'', ''m2'')])) ''B'' \<and>
   (event_index (fst (store_event (fst (run (InMemoryEventStore_init 1)
              [(''A'', ''e1'', ''m1''), (''B'', ''e2'', ''m2'')])) ''A'' ''e3'' ''m3'')) ''e2''
      = Some \<lparr>event_id = ''e2'', stream_id = ''B'', message = ''m2''\<rparr>)
     = (event_index (fst (run (InMemoryEventStore_init 1)
              [(''A'', ''e1'', ''m1''), (''B'', ''e2'', ''m2'')])) ''e2''
      = Some \<lparr>event_id = ''e2'', stream_id = ''B'', message = ''m2''\<rparr>)"
proof -
  let ?calls = "[(''A'', ''e1'', ''m1''), (''B'', ''e2'', ''m2'')]"
  have h1: "distinct (drawn (?calls @ [(''A'', ''e3'', ''m3'')]))" by (simp add: drawn_def)
  have h3: "''B'' \<noteq> ''A''" by simp
  have h4: "stream_id \<lparr>event_id = ''e2'', stream_id = ''B'', message = ''m2''\<rparr> = ''B''" by simp
  note t = store_event_other_streams [OF h1 refl h3, of 1]
  from h1 h3 t [THEN conjunct1] t [THEN conjunct2, rule_format, OF h4, of "''e2''"]
  show ?thesis by (intro conjI)
qed

end
